theory Spec2Isabelle
  imports Complex_Main "HOL-Library.Char_ord" "HOL-Library.List_Lexorder"
begin

section \<open>Station allocation: the data model\<close>

text \<open>
  The allocator of \<^verbatim>\<open>code.py\<close> reads a table of process rows (a DataFrame with the
  columns \<^verbatim>\<open>id\<close>, \<^verbatim>\<open>name\<close>, \<^verbatim>\<open>expectedTimeInMin\<close>, \<^verbatim>\<open>machineType\<close>,
  \<^verbatim>\<open>dependency\<close>) and returns a dictionary with the one key \<^verbatim>\<open>stations\<close>.
  A row is a record, the table is the list of its rows in row order. Identifiers and
  machine types are strings. Durations are Python floats in the source; here they are
  real numbers, so rounding of the floating-point sums is not part of the model.
  The column \<^verbatim>\<open>id\<close> is the field \<open>id_p\<close>, since \<open>id\<close> is the identity function of HOL.
\<close>

record process =
  id_p :: string
  name_p :: string
  expectedTimeInMin :: real
  machineType :: string
  dependency :: "string list"

text \<open>The entries \<^verbatim>\<open>{'id': p['id'], 'name': p['name']}\<close> of a station's process list.\<close>

record proc_ref =
  ref_id :: string
  ref_name :: string

record station =
  station_id :: string
  processes :: "proc_ref list"
  total_expected_time :: real
  waste_time :: real
  machines_required :: int

record allocation =
  stations :: "station list"

text \<open>The only exception the allocator raises itself: \<^verbatim>\<open>ValueError(message)\<close>.\<close>

datatype error = ValueError string

section \<open>Helpers\<close>

text \<open>Decimal rendering of the station counter, as the f-string \<^verbatim>\<open>f"S{station_id}"\<close> does.\<close>

definition digit_char :: "nat \<Rightarrow> char" where
  "digit_char d = ''0123456789'' ! d"

function str_nat :: "nat \<Rightarrow> string" where
  "str_nat n = (if n < 10 then [digit_char n] else str_nat (n div 10) @ [digit_char (n mod 10)])"
  by pat_completeness auto
termination
  by (relation "measure (\<lambda>n. n)") auto

declare str_nat.simps [simp del]

definition station_label :: "nat \<Rightarrow> string" where
  "station_label n = ''S'' @ str_nat n"

definition proc_summary :: "process \<Rightarrow> proc_ref" where
  "proc_summary p = \<lparr>ref_id = id_p p, ref_name = name_p p\<rparr>"

text \<open>\<^verbatim>\<open>calculate_station_time\<close>, and the same sum written inline in the allocator.\<close>

definition calculate_station_time :: "process list \<Rightarrow> real" where
  "calculate_station_time station_processes = sum_list (map expectedTimeInMin station_processes)"

text \<open>\<^verbatim>\<open>all(dep in allocated_processes for dep in deps)\<close>.\<close>

definition deps_met :: "string set \<Rightarrow> string list \<Rightarrow> bool" where
  "deps_met allocated deps = list_all (\<lambda>dep. dep \<in> allocated) deps"

section \<open>Dependency validation (lines 62 to 67)\<close>

definition invalid_dependency_message :: "string \<Rightarrow> string \<Rightarrow> string" where
  "invalid_dependency_message process_id dep =
     ''Process '' @ [CHR 0x27] @ process_id @ [CHR 0x27] @ '' has invalid dependency: ''
       @ [CHR 0x27] @ dep @ [CHR 0x27]"

text \<open>The inner loop over one row's dependency list.\<close>

fun check_deps :: "process list \<Rightarrow> string \<Rightarrow> string list \<Rightarrow> error option" where
  "check_deps df process_id [] = None"
| "check_deps df process_id (dep # deps) =
     (if dep \<notin> set (map id_p df) then Some (ValueError (invalid_dependency_message process_id dep))
      else check_deps df process_id deps)"

text \<open>The outer loop over the rows, in row order; the first violation raises.\<close>

fun validate_rows :: "process list \<Rightarrow> process list \<Rightarrow> error option" where
  "validate_rows df [] = None"
| "validate_rows df (p # rest) =
     (case check_deps df (id_p p) (dependency p) of
        Some e \<Rightarrow> Some e
      | None \<Rightarrow> validate_rows df rest)"

definition validate_dependencies :: "process list \<Rightarrow> error option" where
  "validate_dependencies df = validate_rows df df"

section \<open>Mode A: dependency-respecting allocation (lines 69 to 104)\<close>

text \<open>
  The inner scan (lines 82 to 89): every row not yet allocated that has the seed's machine
  type, whose dependencies are all allocated and whose duration still fits joins the
  open station and is marked allocated at once.
\<close>

fun add_same_machine ::
  "process list \<Rightarrow> string \<Rightarrow> real \<Rightarrow> process list \<Rightarrow> string set \<Rightarrow> process list \<times> string set" where
  "add_same_machine [] machine_type throughput_target current_station allocated =
     (current_station, allocated)"
| "add_same_machine (next_process # rest) machine_type throughput_target current_station allocated =
     (if id_p next_process \<in> allocated
      then add_same_machine rest machine_type throughput_target current_station allocated
      else if machineType next_process = machine_type
              \<and> deps_met allocated (dependency next_process)
              \<and> calculate_station_time current_station + expectedTimeInMin next_process
                  \<le> throughput_target
      then add_same_machine rest machine_type throughput_target
             (current_station @ [next_process]) (insert (id_p next_process) allocated)
      else add_same_machine rest machine_type throughput_target current_station allocated)"

text \<open>
  The station dictionary appended at lines 92 to 98. The source sums the durations of the
  station anew for \<^verbatim>\<open>total_expected_time\<close> and for \<^verbatim>\<open>waste_time\<close>; with exact sums
  these are the value the admission test used.
\<close>

definition make_station_a :: "nat \<Rightarrow> real \<Rightarrow> process list \<Rightarrow> station" where
  "make_station_a sid throughput_target current_station =
     \<lparr>station_id = station_label sid,
      processes = map proc_summary current_station,
      total_expected_time = calculate_station_time current_station,
      waste_time = throughput_target - calculate_station_time current_station,
      machines_required = 1\<rparr>"

text \<open>
  The scan for a seed (lines 71 to 101): the first row that is not allocated and whose
  dependencies are all allocated opens a station; the scan stops there (\<^verbatim>\<open>break\<close>).
  \<open>None\<close> is the case in which \<^verbatim>\<open>found_new_station\<close> stays false.
\<close>

fun scan_for_seed ::
  "process list \<Rightarrow> process list \<Rightarrow> real \<Rightarrow> string set \<Rightarrow> (process list \<times> string set) option" where
  "scan_for_seed df [] throughput_target allocated = None"
| "scan_for_seed df (p # rest) throughput_target allocated =
     (if id_p p \<in> allocated then scan_for_seed df rest throughput_target allocated
      else if deps_met allocated (dependency p)
      then Some (add_same_machine df (machineType p) throughput_target [p]
                   (insert (id_p p) allocated))
      else scan_for_seed df rest throughput_target allocated)"

lemma add_same_machine_mono:
  "add_same_machine rows mt tt cur allocated = (cur', allocated') \<Longrightarrow> allocated \<subseteq> allocated'"
  by (induction rows mt tt cur allocated rule: add_same_machine.induct)
     (auto split: if_splits)

lemma scan_for_seed_progress:
  "scan_for_seed df rows tt allocated = Some (cur, allocated') \<Longrightarrow>
     \<exists>p \<in> set rows. id_p p \<notin> allocated \<and> id_p p \<in> allocated' \<and> allocated \<subseteq> allocated'"
proof (induction rows)
  case Nil
  then show ?case by simp
next
  case (Cons p rest)
  show ?case
  proof (cases "id_p p \<notin> allocated \<and> deps_met allocated (dependency p)")
    case True
    with Cons.prems have "add_same_machine df (machineType p) tt [p] (insert (id_p p) allocated)
        = (cur, allocated')" by simp
    from add_same_machine_mono [OF this] True show ?thesis by auto
  next
    case False
    with Cons.prems have "scan_for_seed df rest tt allocated = Some (cur, allocated')"
      by (auto split: if_splits)
    from Cons.IH [OF this] show ?thesis by auto
  qed
qed

lemma scan_for_seed_measure:
  assumes "scan_for_seed df df tt allocated = Some (cur, allocated')"
  shows "card (id_p ` set df - allocated') < card (id_p ` set df - allocated)"
proof -
  from scan_for_seed_progress [OF assms] obtain p where
    p: "p \<in> set df" "id_p p \<notin> allocated" "id_p p \<in> allocated'" "allocated \<subseteq> allocated'"
    by blast
  then have "id_p ` set df - allocated' \<subset> id_p ` set df - allocated" by blast
  then show ?thesis by (simp add: psubset_card_mono)
qed

text \<open>
  The outer loop (lines 69 to 104). The state is the list of stations, the station
  counter and the set of allocated ids.
\<close>

function while_unallocated ::
  "process list \<Rightarrow> real \<Rightarrow> station list \<Rightarrow> nat \<Rightarrow> string set \<Rightarrow> station list" where
  "while_unallocated df throughput_target sts sid allocated =
     (if card allocated < length df then
        (case scan_for_seed df df throughput_target allocated of
           None \<Rightarrow> sts
         | Some (current_station, allocated') \<Rightarrow>
             while_unallocated df throughput_target
               (sts @ [make_station_a sid throughput_target current_station]) (sid + 1) allocated')
      else sts)"
  by pat_completeness auto
termination
  by (relation "measure (\<lambda>(df, tt, sts, sid, allocated). card (id_p ` set df - allocated))")
     (auto simp: scan_for_seed_measure)

declare while_unallocated.simps [simp del]

section \<open>Mode B: grouping by machine type (lines 106 to 136)\<close>

text \<open>
  \<^verbatim>\<open>df.groupby('machineType')\<close> yields one group per distinct machine type, the keys in
  sorted order (strings compared character by character, a proper prefix first), each
  group holding its rows in table order.
\<close>

definition groupby_machineType :: "process list \<Rightarrow> (string \<times> process list) list" where
  "groupby_machineType df =
     map (\<lambda>m. (m, filter (\<lambda>p. machineType p = m) df)) (sort (remdups (map machineType df)))"

text \<open>The station dictionary appended at lines 117 to 123 and 129 to 135.\<close>

definition make_station_b :: "nat \<Rightarrow> real \<Rightarrow> process list \<Rightarrow> real \<Rightarrow> station" where
  "make_station_b sid throughput_target station_processes running_total =
     \<lparr>station_id = station_label sid,
      processes = map proc_summary station_processes,
      total_expected_time = running_total,
      waste_time = throughput_target - running_total,
      machines_required = \<lceil>running_total\<rceil>\<rparr>"

text \<open>The loop over the rows of one group (lines 112 to 126).\<close>

fun group_rows ::
  "process list \<Rightarrow> real \<Rightarrow> station list \<Rightarrow> nat \<Rightarrow> process list \<Rightarrow> real
     \<Rightarrow> station list \<times> nat \<times> process list \<times> real" where
  "group_rows [] throughput_target sts sid station_processes running_total =
     (sts, sid, station_processes, running_total)"
| "group_rows (p # rest) throughput_target sts sid station_processes running_total =
     (if running_total + expectedTimeInMin p \<le> throughput_target
      then group_rows rest throughput_target sts sid (station_processes @ [p])
             (running_total + expectedTimeInMin p)
      else group_rows rest throughput_target
             (sts @ [make_station_b sid throughput_target station_processes running_total]) (sid + 1)
             [p] (expectedTimeInMin p))"

text \<open>One group (lines 110 to 136): the loop, then the station still open is closed.\<close>

definition one_group :: "real \<Rightarrow> process list \<Rightarrow> station list \<times> nat \<Rightarrow> station list \<times> nat" where
  "one_group throughput_target grp st =
     (case group_rows grp throughput_target (fst st) (snd st) [] 0 of
        (sts, sid, station_processes, running_total) \<Rightarrow>
          if station_processes \<noteq> []
          then (sts @ [make_station_b sid throughput_target station_processes running_total], sid + 1)
          else (sts, sid))"

fun all_groups ::
  "(string \<times> process list) list \<Rightarrow> real \<Rightarrow> station list \<times> nat \<Rightarrow> station list \<times> nat" where
  "all_groups [] throughput_target st = st"
| "all_groups ((machine_type, grp) # rest) throughput_target st =
     all_groups rest throughput_target (one_group throughput_target grp st)"

section \<open>The allocator and the summary\<close>

definition allocate_processes_to_stations :: "process list \<Rightarrow> bool \<Rightarrow> real \<Rightarrow> error + allocation" where
  "allocate_processes_to_stations df respect_dependencies throughput_target =
     (if respect_dependencies then
        (case validate_dependencies df of
           Some e \<Rightarrow> Inl e
         | None \<Rightarrow> Inr \<lparr>stations = while_unallocated df throughput_target [] 1 {}\<rparr>)
      else Inr \<lparr>stations = fst (all_groups (groupby_machineType df) throughput_target ([], 1))\<rparr>)"

text \<open>
  The three totals that \<^verbatim>\<open>generate_summary_report\<close> computes at lines 142 to 144 before it
  formats them into the report text.
\<close>

record summary =
  total_stations :: nat
  total_waste_time :: real
  total_machines_required :: int

definition generate_summary_report :: "allocation \<Rightarrow> summary" where
  "generate_summary_report station_allocation =
     \<lparr>total_stations = length (stations station_allocation),
      total_waste_time = sum_list (map waste_time (stations station_allocation)),
      total_machines_required = sum_list (map machines_required (stations station_allocation))\<rparr>"

section \<open>Notions used to state the properties\<close>

text \<open>The ids that a station's process list names.\<close>

definition placed_ids :: "station \<Rightarrow> string set" where
  "placed_ids s = ref_id ` set (processes s)"

text \<open>
  Stations given as lists of table rows: every dependency of a row is the id of a row of a
  station at or before the row's own station.
\<close>

definition rows_deps_before :: "process list list \<Rightarrow> bool" where
  "rows_deps_before rowss =
     (\<forall>i < length rowss. \<forall>p \<in> set (rowss ! i). \<forall>d \<in> set (dependency p).
        \<exists>j \<le> i. d \<in> id_p ` set (rowss ! j))"

section \<open>Example tables\<close>

text \<open>
  The table of the worked scenario, with display names, and the results of the allocator
  on it: with dependencies respected at the target 1, and without at the target 0.35.
\<close>

definition example_table :: "process list" where
  "example_table =
     [\<lparr>id_p = ''A'', name_p = ''Cut'', expectedTimeInMin = 0.4, machineType = ''M1'',
         dependency = []\<rparr>,
      \<lparr>id_p = ''B'', name_p = ''Sew'', expectedTimeInMin = 0.3, machineType = ''M1'',
         dependency = [''A'']\<rparr>,
      \<lparr>id_p = ''C'', name_p = ''Press'', expectedTimeInMin = 0.5, machineType = ''M2'',
         dependency = [''A'']\<rparr>]"

definition example_stations_a :: "station list" where
  "example_stations_a =
     [\<lparr>station_id = ''S1'',
        processes = [\<lparr>ref_id = ''A'', ref_name = ''Cut''\<rparr>, \<lparr>ref_id = ''B'', ref_name = ''Sew''\<rparr>],
        total_expected_time = 0.7, waste_time = 0.3, machines_required = 1\<rparr>,
      \<lparr>station_id = ''S2'',
        processes = [\<lparr>ref_id = ''C'', ref_name = ''Press''\<rparr>],
        total_expected_time = 0.5, waste_time = 0.5, machines_required = 1\<rparr>]"

definition example_stations_b :: "station list" where
  "example_stations_b =
     [\<lparr>station_id = ''S1'', processes = [],
        total_expected_time = 0, waste_time = 0.35, machines_required = 0\<rparr>,
      \<lparr>station_id = ''S2'', processes = [\<lparr>ref_id = ''A'', ref_name = ''Cut''\<rparr>],
        total_expected_time = 0.4, waste_time = - 0.05, machines_required = 1\<rparr>,
      \<lparr>station_id = ''S3'', processes = [\<lparr>ref_id = ''B'', ref_name = ''Sew''\<rparr>],
        total_expected_time = 0.3, waste_time = 0.05, machines_required = 1\<rparr>,
      \<lparr>station_id = ''S4'', processes = [],
        total_expected_time = 0, waste_time = 0.35, machines_required = 0\<rparr>,
      \<lparr>station_id = ''S5'', processes = [\<lparr>ref_id = ''C'', ref_name = ''Press''\<rparr>],
        total_expected_time = 0.5, waste_time = - 0.15, machines_required = 1\<rparr>]"

text \<open>
  A table whose second row depends on an id that no row has.
\<close>

definition example_bad_table :: "process list" where
  "example_bad_table =
     [\<lparr>id_p = ''A'', name_p = ''Cut'', expectedTimeInMin = 0.4, machineType = ''M1'',
         dependency = []\<rparr>,
      \<lparr>id_p = ''B'', name_p = ''Sew'', expectedTimeInMin = 0.3, machineType = ''M1'',
         dependency = [''A'', ''Z'']\<rparr>]"

section \<open>Facts about validation\<close>

lemma check_deps_None:
  "check_deps df process_id deps = None \<longleftrightarrow> set deps \<subseteq> id_p ` set df"
  by (induction deps) auto

lemma check_deps_SomeD:
  "check_deps df process_id deps = Some e \<Longrightarrow> \<not> set deps \<subseteq> id_p ` set df"
  using check_deps_None [of df process_id deps] by simp

lemma check_deps_Some:
  "check_deps df process_id deps = Some e \<Longrightarrow>
     \<exists>ds d es. deps = ds @ d # es \<and> set ds \<subseteq> id_p ` set df \<and> d \<notin> id_p ` set df
       \<and> e = ValueError (invalid_dependency_message process_id d)"
proof (induction deps)
  case Nil
  then show ?case by simp
next
  case (Cons dep deps)
  show ?case
  proof (cases "dep \<in> id_p ` set df")
    case False
    with Cons.prems have "e = ValueError (invalid_dependency_message process_id dep)" by auto
    with False show ?thesis by (intro exI [of _ "[]"] exI [of _ dep] exI [of _ deps]) simp
  next
    case True
    with Cons.prems have "check_deps df process_id deps = Some e" by auto
    from Cons.IH [OF this] obtain ds d es where
      h: "deps = ds @ d # es" "set ds \<subseteq> id_p ` set df" "d \<notin> id_p ` set df"
         "e = ValueError (invalid_dependency_message process_id d)" by blast
    with True show ?thesis
      by (intro exI [of _ "dep # ds"] exI [of _ d] exI [of _ es]) simp
  qed
qed

lemma validate_rows_None:
  "validate_rows df rows = None \<longleftrightarrow> (\<forall>p \<in> set rows. set (dependency p) \<subseteq> id_p ` set df)"
  by (induction rows) (auto simp: check_deps_None dest: check_deps_SomeD split: option.splits)

lemma validate_rows_Some:
  "validate_rows df rows = Some e \<Longrightarrow>
     \<exists>ps p qs ds d es. rows = ps @ p # qs
       \<and> (\<forall>q \<in> set ps. set (dependency q) \<subseteq> id_p ` set df)
       \<and> dependency p = ds @ d # es \<and> set ds \<subseteq> id_p ` set df \<and> d \<notin> id_p ` set df
       \<and> e = ValueError (invalid_dependency_message (id_p p) d)"
proof (induction rows)
  case Nil
  then show ?case by simp
next
  case (Cons r rows)
  show ?case
  proof (cases "check_deps df (id_p r) (dependency r)")
    case (Some e')
    with Cons.prems have "e' = e" by simp
    with check_deps_Some Some obtain ds d es where
      "dependency r = ds @ d # es" "set ds \<subseteq> id_p ` set df" "d \<notin> id_p ` set df"
      "e = ValueError (invalid_dependency_message (id_p r) d)" by blast
    then show ?thesis
      by (intro exI [of _ "[]"] exI [of _ r] exI [of _ rows] exI [of _ ds] exI [of _ d]
            exI [of _ es]) simp
  next
    case None
    with Cons.prems have "validate_rows df rows = Some e" by simp
    from Cons.IH [OF this] obtain ps p qs ds d es where
      h: "rows = ps @ p # qs" "\<forall>q \<in> set ps. set (dependency q) \<subseteq> id_p ` set df"
         "dependency p = ds @ d # es" "set ds \<subseteq> id_p ` set df" "d \<notin> id_p ` set df"
         "e = ValueError (invalid_dependency_message (id_p p) d)" by blast
    from None have "set (dependency r) \<subseteq> id_p ` set df" by (simp add: check_deps_None)
    with h show ?thesis
      by (intro exI [of _ "r # ps"] exI [of _ p] exI [of _ qs] exI [of _ ds] exI [of _ d]
            exI [of _ es]) simp
  qed
qed

section \<open>Facts about the loops of Mode A\<close>

lemma add_same_machine_spec:
  "add_same_machine rows mt tt cur allocated = (cur', allocated') \<Longrightarrow>
     \<exists>added. cur' = cur @ added \<and> allocated' = allocated \<union> id_p ` set added
       \<and> set added \<subseteq> set rows
       \<and> distinct (map id_p added) \<and> id_p ` set added \<inter> allocated = {}
       \<and> (\<forall>p \<in> set added. machineType p = mt \<and> set (dependency p) \<subseteq> allocated')
       \<and> (added \<noteq> [] \<longrightarrow> calculate_station_time cur' \<le> tt)"
proof (induction rows mt tt cur allocated rule: add_same_machine.induct)
  case (1 mt tt cur allocated)
  then show ?case by simp
next
  case (2 np rest mt tt cur allocated)
  let ?join = "machineType np = mt \<and> deps_met allocated (dependency np)
      \<and> calculate_station_time cur + expectedTimeInMin np \<le> tt"
  show ?case
  proof (cases "id_p np \<notin> allocated \<and> ?join")
    case True
    with "2.prems" have run: "add_same_machine rest mt tt (cur @ [np]) (insert (id_p np) allocated)
        = (cur', allocated')" by simp
    from "2.IH"(2) [OF _ _ run] True obtain added where
      a: "cur' = (cur @ [np]) @ added" "allocated' = insert (id_p np) allocated \<union> id_p ` set added"
         "set added \<subseteq> set rest" "distinct (map id_p added)"
         "id_p ` set added \<inter> insert (id_p np) allocated = {}"
         "\<forall>p \<in> set added. machineType p = mt \<and> set (dependency p) \<subseteq> allocated'"
         "added \<noteq> [] \<longrightarrow> calculate_station_time cur' \<le> tt"
      by blast
    from True have deps: "set (dependency np) \<subseteq> allocated"
      by (auto simp: deps_met_def list_all_iff)
    have tot: "calculate_station_time cur' \<le> tt"
    proof (cases "added = []")
      case True
      with a(1) \<open>id_p np \<notin> allocated \<and> ?join\<close> show ?thesis
        by (simp add: calculate_station_time_def)
    next
      case False
      with a(7) show ?thesis by simp
    qed
    show ?thesis
    proof (intro exI [of _ "np # added"] conjI)
      show "cur' = cur @ np # added" using a(1) by simp
      show "allocated' = allocated \<union> id_p ` set (np # added)" using a(2) by auto
      show "set (np # added) \<subseteq> set (np # rest)" using a(3) by auto
      show "distinct (map id_p (np # added))" using a(4,5) by auto
      show "id_p ` set (np # added) \<inter> allocated = {}" using a(5) True by auto
      show "\<forall>p \<in> set (np # added). machineType p = mt \<and> set (dependency p) \<subseteq> allocated'"
        using a(6) a(2) deps True by auto
      show "np # added \<noteq> [] \<longrightarrow> calculate_station_time cur' \<le> tt" using tot by simp
    qed
  next
    case False
    with "2.prems" have run: "add_same_machine rest mt tt cur allocated = (cur', allocated')"
      by (auto split: if_splits)
    have "\<exists>added. cur' = cur @ added \<and> allocated' = allocated \<union> id_p ` set added
       \<and> set added \<subseteq> set rest
       \<and> distinct (map id_p added) \<and> id_p ` set added \<inter> allocated = {}
       \<and> (\<forall>p \<in> set added. machineType p = mt \<and> set (dependency p) \<subseteq> allocated')
       \<and> (added \<noteq> [] \<longrightarrow> calculate_station_time cur' \<le> tt)"
    proof (cases "id_p np \<in> allocated")
      case True
      from "2.IH"(1) [OF True run] show ?thesis .
    next
      case nin: False
      with False have "\<not> ?join" by simp
      from "2.IH"(3) [OF nin this run] show ?thesis .
    qed
    then show ?thesis by auto
  qed
qed

lemma scan_for_seed_seed:
  "scan_for_seed df rows tt allocated = Some (cur, allocated') \<Longrightarrow>
     \<exists>p \<in> set rows. id_p p \<notin> allocated \<and> set (dependency p) \<subseteq> allocated
       \<and> add_same_machine df (machineType p) tt [p] (insert (id_p p) allocated) = (cur, allocated')"
proof (induction rows)
  case Nil
  then show ?case by simp
next
  case (Cons p rest)
  show ?case
  proof (cases "id_p p \<notin> allocated \<and> deps_met allocated (dependency p)")
    case True
    with Cons.prems show ?thesis by (auto simp: deps_met_def list_all_iff)
  next
    case False
    with Cons.prems have "scan_for_seed df rest tt allocated = Some (cur, allocated')"
      by (auto split: if_splits)
    from Cons.IH [OF this] show ?thesis by auto
  qed
qed

text \<open>What one pass of the outer loop produces.\<close>

lemma scan_for_seed_spec:
  assumes "scan_for_seed df df tt allocated = Some (cur, allocated')"
  shows "\<exists>p added. cur = p # added \<and> set cur \<subseteq> set df
       \<and> allocated' = allocated \<union> id_p ` set cur
       \<and> distinct (map id_p cur) \<and> id_p ` set cur \<inter> allocated = {}
       \<and> (\<forall>q \<in> set cur. set (dependency q) \<subseteq> allocated')
       \<and> (\<forall>q \<in> set cur. machineType q = machineType p)
       \<and> (added \<noteq> [] \<longrightarrow> calculate_station_time cur \<le> tt)"
proof -
  from scan_for_seed_seed [OF assms] obtain p where
    p: "p \<in> set df" "id_p p \<notin> allocated" "set (dependency p) \<subseteq> allocated"
       "add_same_machine df (machineType p) tt [p] (insert (id_p p) allocated) = (cur, allocated')"
    by blast
  from add_same_machine_spec [OF p(4)] obtain added where
    a: "cur = [p] @ added" "allocated' = insert (id_p p) allocated \<union> id_p ` set added"
       "set added \<subseteq> set df" "distinct (map id_p added)"
       "id_p ` set added \<inter> insert (id_p p) allocated = {}"
       "\<forall>q \<in> set added. machineType q = machineType p \<and> set (dependency q) \<subseteq> allocated'"
       "added \<noteq> [] \<longrightarrow> calculate_station_time cur \<le> tt"
    by blast
  show ?thesis
  proof (intro exI [of _ p] exI [of _ added] conjI)
    show "cur = p # added" using a(1) by simp
    show "set cur \<subseteq> set df" using a(1,3) p(1) by auto
    show "allocated' = allocated \<union> id_p ` set cur" using a(1,2) by auto
    show "distinct (map id_p cur)" using a(1,4,5) by auto
    show "id_p ` set cur \<inter> allocated = {}" using a(1,5) p(2) by auto
    show "\<forall>q \<in> set cur. set (dependency q) \<subseteq> allocated'" using a(1,2,6) p(3) by auto
    show "\<forall>q \<in> set cur. machineType q = machineType p" using a(1,6) by auto
    show "added \<noteq> [] \<longrightarrow> calculate_station_time cur \<le> tt" using a(7) by simp
  qed
qed

text \<open>An invariant of the loop state that every pass preserves holds of the result.\<close>

lemma while_unallocated_invariant:
  assumes init: "Inv sts allocated"
    and step: "\<And>sts sid allocated cur allocated'.
       Inv sts allocated \<Longrightarrow> scan_for_seed df df tt allocated = Some (cur, allocated') \<Longrightarrow>
       Inv (sts @ [make_station_a sid tt cur]) allocated'"
  shows "\<exists>final. Inv (while_unallocated df tt sts sid allocated) final"
  using init step
proof (induction df tt sts sid allocated rule: while_unallocated.induct)
  case (1 df tt sts sid allocated)
  show ?case
  proof (cases "card allocated < length df")
    case False
    then have "while_unallocated df tt sts sid allocated = sts"
      by (simp add: while_unallocated.simps)
    with "1.prems"(1) show ?thesis by auto
  next
    case True
    show ?thesis
    proof (cases "scan_for_seed df df tt allocated")
      case None
      with True have "while_unallocated df tt sts sid allocated = sts"
        by (simp add: while_unallocated.simps)
      with "1.prems"(1) show ?thesis by auto
    next
      case (Some r)
      obtain cur allocated' where r: "r = (cur, allocated')" by (cases r)
      from True Some r have eq: "while_unallocated df tt sts sid allocated
          = while_unallocated df tt (sts @ [make_station_a sid tt cur]) (sid + 1) allocated'"
        by (simp add: while_unallocated.simps)
      from Some r have "scan_for_seed df df tt allocated = Some (cur, allocated')" by simp
      from "1.prems"(2) [OF "1.prems"(1) this]
      have "Inv (sts @ [make_station_a sid tt cur]) allocated'" .
      from "1.IH" [OF True Some r [symmetric] this "1.prems"(2)] eq show ?thesis by simp
    qed
  qed
qed

lemma while_unallocated_stations:
  assumes "\<forall>s \<in> set sts. P s"
    and "\<And>sid allocated cur allocated'.
       scan_for_seed df df tt allocated = Some (cur, allocated') \<Longrightarrow> P (make_station_a sid tt cur)"
  shows "\<forall>s \<in> set (while_unallocated df tt sts sid allocated). P s"
proof -
  have "\<exists>final::string set. \<forall>s \<in> set (while_unallocated df tt sts sid allocated). P s"
    by (rule while_unallocated_invariant [where Inv = "\<lambda>sts final. \<forall>s \<in> set sts. P s"])
       (use assms in auto)
  then show ?thesis by simp
qed

lemma while_unallocated_length:
  "length (while_unallocated df tt sts sid allocated)
     \<le> length sts + card (id_p ` set df - allocated)"
proof (induction df tt sts sid allocated rule: while_unallocated.induct)
  case (1 df tt sts sid allocated)
  show ?case
  proof (cases "card allocated < length df")
    case False
    then show ?thesis by (simp add: while_unallocated.simps)
  next
    case True
    show ?thesis
    proof (cases "scan_for_seed df df tt allocated")
      case None
      with True show ?thesis by (simp add: while_unallocated.simps)
    next
      case (Some r)
      obtain cur allocated' where r: "r = (cur, allocated')" by (cases r)
      from True Some r have eq: "while_unallocated df tt sts sid allocated
          = while_unallocated df tt (sts @ [make_station_a sid tt cur]) (sid + 1) allocated'"
        by (simp add: while_unallocated.simps)
      from Some r have "card (id_p ` set df - allocated') < card (id_p ` set df - allocated)"
        by (simp add: scan_for_seed_measure)
      with "1.IH" [OF True Some r [symmetric]] eq show ?thesis by simp
    qed
  qed
qed

lemma allocate_mode_a:
  "allocate_processes_to_stations df True tt = Inr res \<Longrightarrow>
     validate_dependencies df = None \<and> stations res = while_unallocated df tt [] 1 {}"
  by (auto simp: allocate_processes_to_stations_def split: option.splits)

lemma mode_a_stations:
  assumes "allocate_processes_to_stations df True tt = Inr res" and "s \<in> set (stations res)"
  shows "\<exists>n cur. s = make_station_a n tt cur"
proof -
  have "\<forall>s \<in> set (while_unallocated df tt [] 1 {}). \<exists>n cur. s = make_station_a n tt cur"
    by (rule while_unallocated_stations) auto
  with allocate_mode_a [OF assms(1)] assms(2) show ?thesis by simp
qed

lemma seed_station_time:
  assumes "scan_for_seed df df tt allocated = Some (cur, allocated')"
  shows "calculate_station_time cur \<le> tt
     \<or> (\<exists>p \<in> set df. cur = [p] \<and> tt < expectedTimeInMin p)"
proof -
  from scan_for_seed_spec [OF assms] obtain p added where
    c: "cur = p # added" "set cur \<subseteq> set df" "added \<noteq> [] \<longrightarrow> calculate_station_time cur \<le> tt"
    by blast
  show ?thesis
  proof (cases "added = []")
    case True
    with c have "cur = [p]" "p \<in> set df" by auto
    then show ?thesis by (auto simp: calculate_station_time_def)
  next
    case False
    with c(3) show ?thesis by simp
  qed
qed

text \<open>
  With exact sums the value that the admission test of line 87 compares with the target
  and the total recorded at line 95 are the same number, so a station with more than one
  row never records more than the target. This is a fact about exact sums only: the
  program computes the two sums separately in double precision, and there they need not
  agree in the last place.
\<close>

lemma exact_sum_time_bound:
  assumes "allocate_processes_to_stations df True throughput_target = Inr res"
    and "s \<in> set (stations res)"
  shows "total_expected_time s \<le> throughput_target
     \<or> (\<exists>p \<in> set df. processes s = [proc_summary p]
           \<and> total_expected_time s = expectedTimeInMin p
           \<and> throughput_target < expectedTimeInMin p)"
proof -
  let ?P = "\<lambda>s. total_expected_time s \<le> throughput_target
     \<or> (\<exists>p \<in> set df. processes s = [proc_summary p]
           \<and> total_expected_time s = expectedTimeInMin p
           \<and> throughput_target < expectedTimeInMin p)"
  have "\<forall>s \<in> set (while_unallocated df throughput_target [] 1 {}). ?P s"
  proof (rule while_unallocated_stations)
    show "\<forall>s \<in> set []. ?P s" by simp
  next
    fix sid allocated cur allocated'
    assume "scan_for_seed df df throughput_target allocated = Some (cur, allocated')"
    from seed_station_time [OF this]
    show "?P (make_station_a sid throughput_target cur)"
      by (auto simp: make_station_a_def calculate_station_time_def)
  qed
  with assms allocate_mode_a [OF assms(1)] show ?thesis by simp
qed

lemma placed_ids_make_station_a [simp]:
  "placed_ids (make_station_a sid tt cur) = id_p ` set cur"
  by (auto simp: placed_ids_def make_station_a_def proc_summary_def image_iff)

lemma rows_deps_before_step:
  assumes inv: "allocated = (\<Union>rs \<in> set rowss. id_p ` set rs)" "rows_deps_before rowss"
    and scan: "scan_for_seed df df tt allocated = Some (cur, allocated')"
  shows "allocated' = (\<Union>rs \<in> set (rowss @ [cur]). id_p ` set rs)
     \<and> rows_deps_before (rowss @ [cur])"
proof -
  from scan_for_seed_spec [OF scan] have
    c: "allocated' = allocated \<union> id_p ` set cur"
       "\<forall>q \<in> set cur. set (dependency q) \<subseteq> allocated'"
    by blast+
  have al: "allocated' = (\<Union>rs \<in> set (rowss @ [cur]). id_p ` set rs)"
    using c(1) inv(1) by auto
  have "\<exists>j \<le> i. d \<in> id_p ` set ((rowss @ [cur]) ! j)"
    if i: "i < length (rowss @ [cur])" and p: "p \<in> set ((rowss @ [cur]) ! i)"
      and d: "d \<in> set (dependency p)" for i p d
  proof (cases "i < length rowss")
    case True
    with p have "p \<in> set (rowss ! i)" by (simp add: nth_append)
    with inv(2) True d obtain j where "j \<le> i" "d \<in> id_p ` set (rowss ! j)"
      unfolding rows_deps_before_def by blast
    with True show ?thesis by (auto simp: nth_append intro!: exI [of _ j])
  next
    case False
    with i have i_eq: "i = length rowss" by simp
    with p have "p \<in> set cur" by simp
    with c(2) d have "d \<in> allocated'" by auto
    with al obtain rs where "rs \<in> set (rowss @ [cur])" "d \<in> id_p ` set rs" by blast
    then obtain j where "j < length (rowss @ [cur])" "d \<in> id_p ` set ((rowss @ [cur]) ! j)"
      by (metis in_set_conv_nth)
    with i_eq show ?thesis by (auto intro!: exI [of _ j])
  qed
  then have "rows_deps_before (rowss @ [cur])"
    unfolding rows_deps_before_def by blast
  with al show ?thesis by simp
qed

lemma mode_a_rows:
  "\<exists>rowss. map processes (while_unallocated df tt [] 1 {}) = map (map proc_summary) rowss
     \<and> (\<forall>rs \<in> set rowss. set rs \<subseteq> set df) \<and> rows_deps_before rowss"
proof -
  let ?Inv = "\<lambda>(sts :: station list) allocated.
      \<exists>rowss. map processes sts = map (map proc_summary) rowss
      \<and> (\<forall>rs \<in> set rowss. set rs \<subseteq> set df)
      \<and> allocated = (\<Union>rs \<in> set rowss. id_p ` set rs) \<and> rows_deps_before rowss"
  have "\<exists>final. ?Inv (while_unallocated df tt [] 1 {}) final"
  proof (rule while_unallocated_invariant [where Inv = ?Inv])
    show "?Inv [] {}" by (intro exI [of _ "[]"]) (simp add: rows_deps_before_def)
  next
    fix sts sid allocated cur allocated'
    assume inv: "?Inv sts allocated"
      and scan: "scan_for_seed df df tt allocated = Some (cur, allocated')"
    from inv obtain rowss where
      r: "map processes sts = map (map proc_summary) rowss" "\<forall>rs \<in> set rowss. set rs \<subseteq> set df"
         "allocated = (\<Union>rs \<in> set rowss. id_p ` set rs)" "rows_deps_before rowss"
      by blast
    from scan_for_seed_spec [OF scan] have sub: "set cur \<subseteq> set df" by blast
    from rows_deps_before_step [OF r(3,4) scan] have
      n: "allocated' = (\<Union>rs \<in> set (rowss @ [cur]). id_p ` set rs)"
         "rows_deps_before (rowss @ [cur])"
      by blast+
    have m: "map processes (sts @ [make_station_a sid tt cur])
        = map (map proc_summary) (rowss @ [cur])"
      using r(1) by (simp add: make_station_a_def)
    have "\<forall>rs \<in> set (rowss @ [cur]). set rs \<subseteq> set df"
      using r(2) sub by simp
    with m n show "?Inv (sts @ [make_station_a sid tt cur]) allocated'"
      by (intro exI [of _ "rowss @ [cur]"] conjI)
  qed
  then show ?thesis by blast
qed

lemma placed_ids_rows:
  assumes "map processes sts = map (map proc_summary) rowss" and "j < length rowss"
  shows "placed_ids (sts ! j) = id_p ` set (rowss ! j)"
proof -
  from assms(1) have len: "length sts = length rowss" by (metis length_map)
  with assms have "processes (sts ! j) = map proc_summary (rowss ! j)"
    by (metis nth_map)
  then show ?thesis by (auto simp: placed_ids_def proc_summary_def image_iff)
qed

lemma mode_a_distinct_step:
  assumes inv: "allocated = (\<Union>s \<in> set sts. placed_ids s)"
      "distinct (concat (map (\<lambda>s. map ref_id (processes s)) sts))"
    and scan: "scan_for_seed df df tt allocated = Some (cur, allocated')"
  shows "allocated' = (\<Union>s \<in> set (sts @ [make_station_a sid tt cur]). placed_ids s)
     \<and> distinct (concat (map (\<lambda>s. map ref_id (processes s)) (sts @ [make_station_a sid tt cur])))"
proof -
  from scan_for_seed_spec [OF scan] have
    c: "allocated' = allocated \<union> id_p ` set cur" "distinct (map id_p cur)"
       "id_p ` set cur \<inter> allocated = {}"
    by blast+
  have ids: "map ref_id (processes (make_station_a sid tt cur)) = map id_p cur"
    by (simp add: make_station_a_def proc_summary_def)
  have "set (concat (map (\<lambda>s. map ref_id (processes s)) sts)) = allocated"
    using inv(1) by (auto simp: placed_ids_def)
  with c(2,3) inv(2) ids
  have "distinct (concat (map (\<lambda>s. map ref_id (processes s)) (sts @ [make_station_a sid tt cur])))"
    by auto
  moreover have "allocated' = (\<Union>s \<in> set (sts @ [make_station_a sid tt cur]). placed_ids s)"
    using c(1) inv(1) by auto
  ultimately show ?thesis by simp
qed

lemma mode_a_distinct:
  assumes "allocate_processes_to_stations df True tt = Inr res"
  shows "distinct (concat (map (\<lambda>s. map ref_id (processes s)) (stations res)))"
proof -
  let ?Inv = "\<lambda>sts allocated. allocated = (\<Union>s \<in> set sts. placed_ids s)
      \<and> distinct (concat (map (\<lambda>s. map ref_id (processes s)) sts))"
  have "\<exists>final. ?Inv (while_unallocated df tt [] 1 {}) final"
  proof (rule while_unallocated_invariant [where Inv = ?Inv])
    show "?Inv [] {}" by simp
  next
    fix sts sid allocated cur allocated'
    assume "?Inv sts allocated" "scan_for_seed df df tt allocated = Some (cur, allocated')"
    with mode_a_distinct_step [of allocated sts df tt cur allocated' sid]
    show "?Inv (sts @ [make_station_a sid tt cur]) allocated'" by blast
  qed
  with allocate_mode_a [OF assms] show ?thesis by simp
qed

section \<open>Facts about the loops of Mode B\<close>

lemma group_rows_spec:
  "group_rows rows tt sts sid sp tot = (sts', sid', sp', tot') \<Longrightarrow>
     \<exists>rowss. map processes sts' = map processes sts @ map (map proc_summary) rowss
       \<and> concat rowss @ sp' = sp @ rows
       \<and> (\<forall>rs \<in> set rowss. set rs \<subseteq> set (sp @ rows))"
proof (induction rows tt sts sid sp tot rule: group_rows.induct)
  case (1 tt sts sid sp tot)
  then show ?case by (intro exI [of _ "[]"]) simp
next
  case (2 p rest tt sts sid sp tot)
  show ?case
  proof (cases "tot + expectedTimeInMin p \<le> tt")
    case True
    with "2.prems" have "group_rows rest tt sts sid (sp @ [p]) (tot + expectedTimeInMin p)
        = (sts', sid', sp', tot')" by simp
    from "2.IH"(1) [OF True this] show ?thesis by simp
  next
    case False
    with "2.prems" have "group_rows rest tt (sts @ [make_station_b sid tt sp tot]) (sid + 1)
        [p] (expectedTimeInMin p) = (sts', sid', sp', tot')" by simp
    from "2.IH"(2) [OF False this] obtain rowss where
      h: "map processes sts' = map processes (sts @ [make_station_b sid tt sp tot])
            @ map (map proc_summary) rowss"
         "concat rowss @ sp' = [p] @ rest" "\<forall>rs \<in> set rowss. set rs \<subseteq> set ([p] @ rest)"
      by blast
    show ?thesis
    proof (intro exI [of _ "sp # rowss"] conjI)
      show "map processes sts' = map processes sts @ map (map proc_summary) (sp # rowss)"
        using h(1) by (simp add: make_station_b_def)
      show "concat (sp # rowss) @ sp' = sp @ p # rest" using h(2) by simp
      show "\<forall>rs \<in> set (sp # rowss). set rs \<subseteq> set (sp @ p # rest)" using h(3) by auto
    qed
  qed
qed

lemma one_group_spec:
  assumes "one_group tt grp st = st'"
  shows "\<exists>rowss. map processes (fst st') = map processes (fst st) @ map (map proc_summary) rowss
       \<and> concat rowss = grp \<and> (\<forall>rs \<in> set rowss. set rs \<subseteq> set grp)"
proof -
  obtain sts1 sid1 sp1 tot1 where
    g: "group_rows grp tt (fst st) (snd st) [] 0 = (sts1, sid1, sp1, tot1)"
    by (metis prod_cases4)
  from group_rows_spec [OF g] obtain rowss where
    h: "map processes sts1 = map processes (fst st) @ map (map proc_summary) rowss"
       "concat rowss @ sp1 = grp" "\<forall>rs \<in> set rowss. set rs \<subseteq> set grp"
    by auto
  show ?thesis
  proof (cases "sp1 = []")
    case True
    with assms g have "fst st' = sts1" by (auto simp: one_group_def)
    with h True show ?thesis by (intro exI [of _ rowss]) simp
  next
    case False
    with assms g have "fst st' = sts1 @ [make_station_b sid1 tt sp1 tot1]"
      by (auto simp: one_group_def)
    with h show ?thesis
      by (intro exI [of _ "rowss @ [sp1]"]) (auto simp: make_station_b_def)
  qed
qed

lemma all_groups_spec:
  "\<exists>rowss. map processes (fst (all_groups gs tt st))
         = map processes (fst st) @ map (map proc_summary) rowss
       \<and> concat rowss = concat (map snd gs)
       \<and> (\<forall>rs \<in> set rowss. \<exists>g \<in> set gs. set rs \<subseteq> set (snd g))"
proof (induction gs tt st rule: all_groups.induct)
  case (1 tt st)
  then show ?case by (intro exI [of _ "[]"]) simp
next
  case (2 m grp rest tt st)
  from one_group_spec [OF refl, of tt grp st] obtain r1 where
    a: "map processes (fst (one_group tt grp st))
          = map processes (fst st) @ map (map proc_summary) r1"
       "concat r1 = grp" "\<forall>rs \<in> set r1. set rs \<subseteq> set grp"
    by blast
  from "2.IH" obtain r2 where
    b: "map processes (fst (all_groups rest tt (one_group tt grp st)))
          = map processes (fst (one_group tt grp st)) @ map (map proc_summary) r2"
       "concat r2 = concat (map snd rest)"
       "\<forall>rs \<in> set r2. \<exists>g \<in> set rest. set rs \<subseteq> set (snd g)"
    by blast
  show ?case
  proof (intro exI [of _ "r1 @ r2"] conjI)
    show "map processes (fst (all_groups ((m, grp) # rest) tt st))
        = map processes (fst st) @ map (map proc_summary) (r1 @ r2)"
      using a(1) b(1) by simp
    show "concat (r1 @ r2) = concat (map snd ((m, grp) # rest))" using a(2) b(2) by simp
    show "\<forall>rs \<in> set (r1 @ r2). \<exists>g \<in> set ((m, grp) # rest). set rs \<subseteq> set (snd g)"
      using a(3) b(3) by auto
  qed
qed

text \<open>The groups of a table: a partition of its rows that keeps the table order.\<close>

lemma filter_concat_groups:
  "distinct ks \<Longrightarrow>
     filter (\<lambda>p. f p = m') (concat (map (\<lambda>m. filter (\<lambda>p. f p = m) xs) ks))
       = (if m' \<in> set ks then filter (\<lambda>p. f p = m') xs else [])"
proof (induction ks)
  case Nil
  then show ?case by simp
next
  case (Cons k ks)
  have "filter (\<lambda>p. f p = m') (filter (\<lambda>p. f p = k) xs)
      = (if m' = k then filter (\<lambda>p. f p = m') xs else [])"
    by (induction xs) auto
  with Cons show ?case by auto
qed

lemma distinct_concat_groups:
  "distinct xs \<Longrightarrow> distinct ks \<Longrightarrow> distinct (concat (map (\<lambda>m. filter (\<lambda>p. f p = m) xs) ks))"
  by (induction ks) auto

lemma snd_groupby_machineType:
  "map snd (groupby_machineType df)
     = map (\<lambda>m. filter (\<lambda>p. machineType p = m) df) (sort (remdups (map machineType df)))"
  by (simp add: groupby_machineType_def comp_def)

lemma filter_groupby_machineType:
  "filter (\<lambda>p. machineType p = m) (concat (map snd (groupby_machineType df)))
     = filter (\<lambda>p. machineType p = m) df"
proof -
  have "filter (\<lambda>p. machineType p = m) df = []" if "m \<notin> machineType ` set df"
    using that by (auto simp: filter_empty_conv)
  then show ?thesis
    by (auto simp: snd_groupby_machineType filter_concat_groups)
qed

lemma allocate_mode_b:
  "allocate_processes_to_stations df False tt = Inr res \<Longrightarrow>
     stations res = fst (all_groups (groupby_machineType df) tt ([], 1))"
  by (auto simp: allocate_processes_to_stations_def)

lemma mode_b_rows:
  assumes "allocate_processes_to_stations df False tt = Inr res"
  shows "\<exists>rowss. map processes (stations res) = map (map proc_summary) rowss
       \<and> concat rowss = concat (map snd (groupby_machineType df))
       \<and> (\<forall>rs \<in> set rowss. \<exists>m. set rs \<subseteq> set (filter (\<lambda>p. machineType p = m) df))"
proof -
  from all_groups_spec [of "groupby_machineType df" tt "([], 1)"] obtain rowss where
    h: "map processes (fst (all_groups (groupby_machineType df) tt ([], 1)))
          = map (map proc_summary) rowss"
       "concat rowss = concat (map snd (groupby_machineType df))"
       "\<forall>rs \<in> set rowss. \<exists>g \<in> set (groupby_machineType df). set rs \<subseteq> set (snd g)"
    by auto
  from h(3) have "\<forall>rs \<in> set rowss. \<exists>m. set rs \<subseteq> set (filter (\<lambda>p. machineType p = m) df)"
    unfolding groupby_machineType_def by fastforce
  with h(1,2) allocate_mode_b [OF assms] show ?thesis by auto
qed

lemma group_rows_stations:
  "group_rows rows tt sts sid sp tot = (sts', sid', sp', tot') \<Longrightarrow>
     set sts \<subseteq> set sts'
     \<and> (\<forall>s \<in> set sts'. s \<in> set sts \<or> (\<exists>n rs t. s = make_station_b n tt rs t))"
proof (induction rows tt sts sid sp tot rule: group_rows.induct)
  case (1 tt sts sid sp tot)
  then show ?case by simp
next
  case (2 p rest tt sts sid sp tot)
  show ?case
  proof (cases "tot + expectedTimeInMin p \<le> tt")
    case True
    with "2.prems" have "group_rows rest tt sts sid (sp @ [p]) (tot + expectedTimeInMin p)
        = (sts', sid', sp', tot')" by simp
    from "2.IH"(1) [OF True this] show ?thesis .
  next
    case False
    with "2.prems" have "group_rows rest tt (sts @ [make_station_b sid tt sp tot]) (sid + 1)
        [p] (expectedTimeInMin p) = (sts', sid', sp', tot')" by simp
    from "2.IH"(2) [OF False this] have
      "set (sts @ [make_station_b sid tt sp tot]) \<subseteq> set sts'"
      "\<forall>s \<in> set sts'. s \<in> set (sts @ [make_station_b sid tt sp tot])
          \<or> (\<exists>n rs t. s = make_station_b n tt rs t)"
      by blast+
    then show ?thesis by (simp, blast)
  qed
qed

lemma one_group_stations:
  "set (fst st) \<subseteq> set (fst (one_group tt grp st))
     \<and> (\<forall>s \<in> set (fst (one_group tt grp st)).
           s \<in> set (fst st) \<or> (\<exists>n rs t. s = make_station_b n tt rs t))"
proof -
  obtain sts1 sid1 sp1 tot1 where
    g: "group_rows grp tt (fst st) (snd st) [] 0 = (sts1, sid1, sp1, tot1)"
    by (metis prod_cases4)
  from group_rows_stations [OF g] have
    h: "set (fst st) \<subseteq> set sts1"
       "\<forall>s \<in> set sts1. s \<in> set (fst st) \<or> (\<exists>n rs t. s = make_station_b n tt rs t)"
    by blast+
  show ?thesis
  proof (cases "sp1 = []")
    case True
    with g have "fst (one_group tt grp st) = sts1" by (simp add: one_group_def)
    with h show ?thesis by simp
  next
    case False
    with g have "fst (one_group tt grp st) = sts1 @ [make_station_b sid1 tt sp1 tot1]"
      by (simp add: one_group_def)
    with h show ?thesis by (simp, blast)
  qed
qed

lemma all_groups_stations:
  "set (fst st) \<subseteq> set (fst (all_groups gs tt st))
     \<and> (\<forall>s \<in> set (fst (all_groups gs tt st)).
           s \<in> set (fst st) \<or> (\<exists>n rs t. s = make_station_b n tt rs t))"
proof (induction gs tt st rule: all_groups.induct)
  case (1 tt st)
  then show ?case by simp
next
  case (2 m grp rest tt st)
  with one_group_stations [of st tt grp] show ?case by (simp, blast)
qed

lemma mode_b_stations:
  assumes "allocate_processes_to_stations df False tt = Inr res" and "s \<in> set (stations res)"
  shows "\<exists>n rs t. s = make_station_b n tt rs t"
  using all_groups_stations [of "([], 1)" "groupby_machineType df" tt]
    allocate_mode_b [OF assms(1)] assms(2) by auto

lemma group_rows_first_overflow:
  assumes "tt < expectedTimeInMin p"
    and "group_rows (p # rest) tt sts sid [] 0 = (sts', sid', sp', tot')"
  shows "make_station_b sid tt [] 0 \<in> set sts'"
proof -
  from assms have "group_rows rest tt (sts @ [make_station_b sid tt [] 0]) (sid + 1)
      [p] (expectedTimeInMin p) = (sts', sid', sp', tot')" by simp
  from group_rows_stations [OF this] show ?thesis by auto
qed

lemma one_group_first_overflow:
  assumes "tt < expectedTimeInMin p"
  shows "make_station_b (snd st) tt [] 0 \<in> set (fst (one_group tt (p # rest) st))"
proof -
  obtain sts1 sid1 sp1 tot1 where
    g: "group_rows (p # rest) tt (fst st) (snd st) [] 0 = (sts1, sid1, sp1, tot1)"
    by (metis prod_cases4)
  from group_rows_first_overflow [OF assms g] g show ?thesis
    by (auto simp: one_group_def)
qed

lemma all_groups_first_overflow:
  "tt < expectedTimeInMin p \<Longrightarrow> (m, p # rest) \<in> set gs \<Longrightarrow>
     \<exists>n. make_station_b n tt [] 0 \<in> set (fst (all_groups gs tt st))"
proof (induction gs tt st rule: all_groups.induct)
  case (1 tt st)
  then show ?case by simp
next
  case (2 m' grp gs tt st)
  show ?case
  proof (cases "(m, p # rest) \<in> set gs")
    case True
    from "2.IH" [OF "2.prems"(1) True] show ?thesis by simp
  next
    case False
    with "2.prems" have "grp = p # rest" by simp
    with one_group_first_overflow [OF "2.prems"(1), of st rest]
    have "make_station_b (snd st) tt [] 0 \<in> set (fst (one_group tt grp st))" by simp
    moreover from all_groups_stations [of "one_group tt grp st" gs tt]
    have "set (fst (one_group tt grp st)) \<subseteq> set (fst (all_groups gs tt (one_group tt grp st)))"
      by blast
    ultimately show ?thesis by auto
  qed
qed

lemma mode_b_distinct:
  assumes "allocate_processes_to_stations df False tt = Inr res" and "distinct (map id_p df)"
  shows "distinct (concat (map (\<lambda>s. map ref_id (processes s)) (stations res)))"
proof -
  from mode_b_rows [OF assms(1)] obtain rowss where
    h: "map processes (stations res) = map (map proc_summary) rowss"
       "concat rowss = concat (map snd (groupby_machineType df))"
    by blast
  have "concat (map (\<lambda>s. map ref_id (processes s)) (stations res))
      = concat (map (map ref_id) (map processes (stations res)))" by (simp add: comp_def)
  also have "\<dots> = concat (map (map id_p) rowss)"
    unfolding h(1) by (simp add: comp_def proc_summary_def)
  also have "\<dots> = map id_p (concat rowss)" by (simp add: map_concat)
  finally have eq: "concat (map (\<lambda>s. map ref_id (processes s)) (stations res))
      = map id_p (concat (map snd (groupby_machineType df)))" using h(2) by simp
  from assms(2) have d: "distinct df" "inj_on id_p (set df)" by (auto simp: distinct_map)
  have "distinct (concat (map snd (groupby_machineType df)))"
    unfolding snd_groupby_machineType by (rule distinct_concat_groups) (use d in auto)
  moreover have "set (concat (map snd (groupby_machineType df))) \<subseteq> set df"
    unfolding snd_groupby_machineType by auto
  ultimately have "distinct (map id_p (concat (map snd (groupby_machineType df))))"
    using d(2) by (auto simp: distinct_map intro: inj_on_subset)
  with eq show ?thesis by simp
qed

lemma allocate_waste_time:
  assumes "allocate_processes_to_stations df rd tt = Inr res" and "s \<in> set (stations res)"
  shows "waste_time s = tt - total_expected_time s"
proof (cases rd)
  case True
  with assms mode_a_stations [of df tt res s] show ?thesis
    by (auto simp: make_station_a_def)
next
  case False
  with assms mode_b_stations [of df tt res s] show ?thesis
    by (auto simp: make_station_b_def)
qed

section \<open>The allocator on the example tables\<close>

lemmas eval_simps =
  allocate_processes_to_stations_def validate_dependencies_def
  while_unallocated.simps deps_met_def calculate_station_time_def make_station_a_def
  station_label_def str_nat.simps digit_char_def proc_summary_def
  groupby_machineType_def one_group_def make_station_b_def

lemma example_mode_a:
  "allocate_processes_to_stations example_table True 1 = Inr \<lparr>stations = example_stations_a\<rparr>"
  by (simp add: example_table_def example_stations_a_def eval_simps)

lemma example_groups:
  "sort (remdups (map machineType example_table)) = [''M1'', ''M2'']"
  by (simp add: example_table_def less_eq_char_def)

lemma example_mode_b:
  "allocate_processes_to_stations example_table False 0.35 = Inr \<lparr>stations = example_stations_b\<rparr>"
  apply (simp add: allocate_processes_to_stations_def groupby_machineType_def example_groups)
  apply (simp add: example_table_def example_stations_b_def one_group_def make_station_b_def
      station_label_def str_nat.simps digit_char_def proc_summary_def ceiling_eq_iff)
  done

lemma example_bad:
  "allocate_processes_to_stations example_bad_table True 1
     = Inl (ValueError (''Process '' @ [CHR 0x27] @ ''B'' @ [CHR 0x27]
              @ '' has invalid dependency: '' @ [CHR 0x27] @ ''Z'' @ [CHR 0x27]))"
  by (simp add: example_bad_table_def allocate_processes_to_stations_def validate_dependencies_def
      invalid_dependency_message_def)

section \<open>The worked scenario\<close>

text \<open>
  C1: for the table A (0.4, M1, no dependency), B (0.3, M1, depends on A), C (0.5, M2,
  depends on A), a target of 1.0 and dependencies respected, the allocator returns exactly
  two stations in this order: S1 holding A then B with a total time of 0.7, and S2
  holding C with a total time of 0.5. The display names are arbitrary.
\<close>

theorem scenario_three_processes:
  "allocate_processes_to_stations
     [\<lparr>id_p = ''A'', name_p = na, expectedTimeInMin = 0.4, machineType = ''M1'', dependency = []\<rparr>,
      \<lparr>id_p = ''B'', name_p = nb, expectedTimeInMin = 0.3, machineType = ''M1'',
         dependency = [''A'']\<rparr>,
      \<lparr>id_p = ''C'', name_p = nc, expectedTimeInMin = 0.5, machineType = ''M2'',
         dependency = [''A'']\<rparr>]
     True 1.0
   = Inr \<lparr>stations =
        [\<lparr>station_id = ''S1'',
            processes = [\<lparr>ref_id = ''A'', ref_name = na\<rparr>, \<lparr>ref_id = ''B'', ref_name = nb\<rparr>],
            total_expected_time = 0.7, waste_time = 0.3, machines_required = 1\<rparr>,
         \<lparr>station_id = ''S2'',
            processes = [\<lparr>ref_id = ''C'', ref_name = nc\<rparr>],
            total_expected_time = 0.5, waste_time = 0.5, machines_required = 1\<rparr>]\<rparr>"
  by (simp add: allocate_processes_to_stations_def validate_dependencies_def
      while_unallocated.simps deps_met_def calculate_station_time_def make_station_a_def
      station_label_def str_nat.simps digit_char_def proc_summary_def)

section \<open>Validation errors\<close>

text \<open>
  C2: with dependencies respected, the allocator raises an error exactly when some row's
  dependency list holds an id that is the id of no row of the table. The error is the one of
  the first such row in table order and of the first such id in its list, and its message
  is the text \<^verbatim>\<open>Process '<id>' has invalid dependency: '<dep>'\<close> with the id of that row
  and that missing id in it. The error is the whole result, so no station comes with it.
  Without dependencies respected, the allocator always returns an allocation.
\<close>

theorem invalid_dependency_error:
  "((\<exists>e. allocate_processes_to_stations df True throughput_target = Inl e)
      \<longleftrightarrow> (\<exists>p \<in> set df. \<exists>d \<in> set (dependency p). d \<notin> id_p ` set df))
   \<and> (allocate_processes_to_stations df True throughput_target = Inl e \<longrightarrow>
        (\<exists>ps p qs ds d es. df = ps @ p # qs
           \<and> (\<forall>q \<in> set ps. set (dependency q) \<subseteq> id_p ` set df)
           \<and> dependency p = ds @ d # es \<and> set ds \<subseteq> id_p ` set df \<and> d \<notin> id_p ` set df
           \<and> e = ValueError (''Process '' @ [CHR 0x27] @ id_p p @ [CHR 0x27]
                    @ '' has invalid dependency: '' @ [CHR 0x27] @ d @ [CHR 0x27])))
   \<and> (\<exists>res. allocate_processes_to_stations df False throughput_target = Inr res)"
proof (intro conjI impI)
  have "(\<exists>e. allocate_processes_to_stations df True throughput_target = Inl e)
      \<longleftrightarrow> validate_dependencies df \<noteq> None"
    by (auto simp: allocate_processes_to_stations_def split: option.splits)
  also have "\<dots> \<longleftrightarrow> (\<exists>p \<in> set df. \<exists>d \<in> set (dependency p). d \<notin> id_p ` set df)"
    unfolding validate_dependencies_def validate_rows_None by blast
  finally show "(\<exists>e. allocate_processes_to_stations df True throughput_target = Inl e)
      \<longleftrightarrow> (\<exists>p \<in> set df. \<exists>d \<in> set (dependency p). d \<notin> id_p ` set df)" .
next
  assume "allocate_processes_to_stations df True throughput_target = Inl e"
  then have "validate_rows df df = Some e"
    by (auto simp: allocate_processes_to_stations_def validate_dependencies_def
        split: option.splits)
  from validate_rows_Some [OF this] obtain ps p qs ds d es where
    h: "df = ps @ p # qs" "\<forall>q \<in> set ps. set (dependency q) \<subseteq> id_p ` set df"
       "dependency p = ds @ d # es" "set ds \<subseteq> id_p ` set df" "d \<notin> id_p ` set df"
       "e = ValueError (invalid_dependency_message (id_p p) d)"
    by blast
  from h(6) have msg: "e = ValueError (''Process '' @ [CHR 0x27] @ id_p p @ [CHR 0x27]
      @ '' has invalid dependency: '' @ [CHR 0x27] @ d @ [CHR 0x27])"
    by (simp add: invalid_dependency_message_def)
  show "\<exists>ps p qs ds d es. df = ps @ p # qs
           \<and> (\<forall>q \<in> set ps. set (dependency q) \<subseteq> id_p ` set df)
           \<and> dependency p = ds @ d # es \<and> set ds \<subseteq> id_p ` set df \<and> d \<notin> id_p ` set df
           \<and> e = ValueError (''Process '' @ [CHR 0x27] @ id_p p @ [CHR 0x27]
                    @ '' has invalid dependency: '' @ [CHR 0x27] @ d @ [CHR 0x27])"
    by (intro exI [of _ ps] exI [of _ p] exI [of _ qs] exI [of _ ds] exI [of _ d] exI [of _ es]
          conjI h(1-5) msg)
next
  show "\<exists>res. allocate_processes_to_stations df False throughput_target = Inr res"
    by (simp add: allocate_processes_to_stations_def)
qed

theorem invalid_dependency_error_witness:
  "allocate_processes_to_stations example_bad_table True 1
     = Inl (ValueError (''Process '' @ [CHR 0x27] @ ''B'' @ [CHR 0x27]
              @ '' has invalid dependency: '' @ [CHR 0x27] @ ''Z'' @ [CHR 0x27]))
   \<and> (\<exists>p \<in> set example_bad_table. \<exists>d \<in> set (dependency p). d \<notin> id_p ` set example_bad_table)
   \<and> (\<exists>ps p qs ds d es. example_bad_table = ps @ p # qs
         \<and> (\<forall>q \<in> set ps. set (dependency q) \<subseteq> id_p ` set example_bad_table)
         \<and> dependency p = ds @ d # es \<and> set ds \<subseteq> id_p ` set example_bad_table
         \<and> d \<notin> id_p ` set example_bad_table
         \<and> ValueError (''Process '' @ [CHR 0x27] @ ''B'' @ [CHR 0x27]
              @ '' has invalid dependency: '' @ [CHR 0x27] @ ''Z'' @ [CHR 0x27])
             = ValueError (''Process '' @ [CHR 0x27] @ id_p p @ [CHR 0x27]
                 @ '' has invalid dependency: '' @ [CHR 0x27] @ d @ [CHR 0x27]))
   \<and> (\<exists>res. allocate_processes_to_stations example_bad_table False 1 = Inr res)"
  using invalid_dependency_error [of example_bad_table 1
      "ValueError (''Process '' @ [CHR 0x27] @ ''B'' @ [CHR 0x27]
         @ '' has invalid dependency: '' @ [CHR 0x27] @ ''Z'' @ [CHR 0x27])"] example_bad
  by blast

section \<open>Properties of Mode A\<close>

text \<open>
  C4: with dependencies respected, every dependency of a placed process is placed in a
  station whose index is at most the index of the process's own station. The stations'
  process lists are the summaries of lists of table rows for which this holds; and when
  the ids of the table are unique, it holds for the row that the table has for each
  placed id.
\<close>

theorem mode_a_dependencies_first:
  assumes "allocate_processes_to_stations df True throughput_target = Inr res"
  shows "(\<exists>rowss. map processes (stations res) = map (map proc_summary) rowss
            \<and> (\<forall>rs \<in> set rowss. set rs \<subseteq> set df)
            \<and> (\<forall>i < length rowss. \<forall>p \<in> set (rowss ! i). \<forall>d \<in> set (dependency p).
                  \<exists>j \<le> i. d \<in> placed_ids (stations res ! j)))
       \<and> (distinct (map id_p df) \<longrightarrow>
            (\<forall>i < length (stations res). \<forall>e \<in> set (processes (stations res ! i)).
               \<forall>p \<in> set df. id_p p = ref_id e \<longrightarrow>
                 (\<forall>d \<in> set (dependency p). \<exists>j \<le> i. d \<in> placed_ids (stations res ! j))))"
proof -
  from mode_a_rows [of df throughput_target] allocate_mode_a [OF assms] obtain rowss where
    r: "map processes (stations res) = map (map proc_summary) rowss"
       "\<forall>rs \<in> set rowss. set rs \<subseteq> set df" "rows_deps_before rowss"
    by auto
  from r(1) have len: "length (stations res) = length rowss" by (metis length_map)
  have before: "\<exists>j \<le> i. d \<in> placed_ids (stations res ! j)"
    if "i < length rowss" "p \<in> set (rowss ! i)" "d \<in> set (dependency p)" for i p d
  proof -
    from r(3) that obtain j where j: "j \<le> i" "d \<in> id_p ` set (rowss ! j)"
      unfolding rows_deps_before_def by blast
    with that(1) have "j < length rowss" by simp
    from placed_ids_rows [OF r(1) this] j show ?thesis by auto
  qed
  have lookup: "\<exists>j \<le> i. d \<in> placed_ids (stations res ! j)"
    if uniq: "distinct (map id_p df)" and i: "i < length (stations res)"
      and e: "e \<in> set (processes (stations res ! i))"
      and p: "p \<in> set df" "id_p p = ref_id e" and d: "d \<in> set (dependency p)" for i e p d
  proof -
    from i len have i': "i < length rowss" by simp
    with r(1) i have "processes (stations res ! i) = map proc_summary (rowss ! i)"
      by (metis nth_map)
    with e obtain q where q: "q \<in> set (rowss ! i)" "e = proc_summary q" by auto
    from r(2) i' q(1) have "q \<in> set df" by (meson nth_mem subsetD)
    moreover from q(2) p(2) have "id_p q = id_p p" by (simp add: proc_summary_def)
    moreover from uniq have "inj_on id_p (set df)" by (simp add: distinct_map)
    ultimately have "q = p" using p(1) by (simp add: inj_on_def)
    with before [OF i' q(1)] d show ?thesis by simp
  qed
  have "\<exists>rowss. map processes (stations res) = map (map proc_summary) rowss
      \<and> (\<forall>rs \<in> set rowss. set rs \<subseteq> set df)
      \<and> (\<forall>i < length rowss. \<forall>p \<in> set (rowss ! i). \<forall>d \<in> set (dependency p).
            \<exists>j \<le> i. d \<in> placed_ids (stations res ! j))"
  proof (intro exI [of _ rowss] conjI allI ballI impI)
    show "map processes (stations res) = map (map proc_summary) rowss" by (rule r(1))
  next
    fix rs assume "rs \<in> set rowss"
    with r(2) show "set rs \<subseteq> set df" by (rule bspec)
  next
    fix i p d
    assume "i < length rowss" "p \<in> set (rowss ! i)" "d \<in> set (dependency p)"
    then show "\<exists>j \<le> i. d \<in> placed_ids (stations res ! j)" by (rule before)
  qed
  moreover have "distinct (map id_p df) \<longrightarrow>
      (\<forall>i < length (stations res). \<forall>e \<in> set (processes (stations res ! i)).
         \<forall>p \<in> set df. id_p p = ref_id e \<longrightarrow>
           (\<forall>d \<in> set (dependency p). \<exists>j \<le> i. d \<in> placed_ids (stations res ! j)))"
  proof (intro impI allI ballI)
    fix i e p d
    assume "distinct (map id_p df)" "i < length (stations res)"
      "e \<in> set (processes (stations res ! i))" "p \<in> set df" "id_p p = ref_id e"
      "d \<in> set (dependency p)"
    then show "\<exists>j \<le> i. d \<in> placed_ids (stations res ! j)" by (rule lookup)
  qed
  ultimately show ?thesis by (rule conjI)
qed

theorem mode_a_dependencies_first_witness:
  "allocate_processes_to_stations example_table True 1 = Inr \<lparr>stations = example_stations_a\<rparr>
   \<and> distinct (map id_p example_table)
   \<and> 0 < length (stations \<lparr>stations = example_stations_a\<rparr>)
   \<and> \<lparr>ref_id = ''B'', ref_name = ''Sew''\<rparr>
        \<in> set (processes (stations \<lparr>stations = example_stations_a\<rparr> ! 0))
   \<and> example_table ! 1 \<in> set example_table
   \<and> id_p (example_table ! 1) = ref_id \<lparr>ref_id = ''B'', ref_name = ''Sew''\<rparr>
   \<and> ''A'' \<in> set (dependency (example_table ! 1))
   \<and> (\<exists>j \<le> 0. ''A'' \<in> placed_ids (stations \<lparr>stations = example_stations_a\<rparr> ! j))"
proof -
  have h: "distinct (map id_p example_table)"
    "0 < length (stations \<lparr>stations = example_stations_a\<rparr>)"
    "\<lparr>ref_id = ''B'', ref_name = ''Sew''\<rparr>
        \<in> set (processes (stations \<lparr>stations = example_stations_a\<rparr> ! 0))"
    "example_table ! 1 \<in> set example_table"
    "id_p (example_table ! 1) = ref_id \<lparr>ref_id = ''B'', ref_name = ''Sew''\<rparr>"
    "''A'' \<in> set (dependency (example_table ! 1))"
    by (simp_all add: example_table_def example_stations_a_def)
  from mode_a_dependencies_first [OF example_mode_a, THEN conjunct2, THEN mp, OF h(1),
      rule_format, OF h(2) h(3) h(4) h(5) h(6)]
  have "\<exists>j \<le> 0. ''A'' \<in> placed_ids (stations \<lparr>stations = example_stations_a\<rparr> ! j)" .
  with example_mode_a h show ?thesis by (intro conjI)
qed

section \<open>Properties of both modes\<close>

text \<open>
  C5: in both modes no id is placed twice: the ids named by the stations' process lists,
  read through the stations in order, are pairwise distinct. Mode B needs the ids of the
  table to be unique; Mode A skips a row whose id is already allocated and needs nothing.
\<close>

theorem no_duplicate_placement:
  assumes "allocate_processes_to_stations df respect_dependencies throughput_target = Inr res"
    and "respect_dependencies \<or> distinct (map id_p df)"
  shows "distinct (concat (map (\<lambda>s. map ref_id (processes s)) (stations res)))"
proof (cases respect_dependencies)
  case True
  with assms(1) show ?thesis by (simp add: mode_a_distinct)
next
  case False
  with assms show ?thesis by (simp add: mode_b_distinct)
qed

theorem no_duplicate_placement_witness:
  "allocate_processes_to_stations example_table False 0.35 = Inr \<lparr>stations = example_stations_b\<rparr>
   \<and> (False \<or> distinct (map id_p example_table))
   \<and> distinct (concat (map (\<lambda>s. map ref_id (processes s))
         (stations \<lparr>stations = example_stations_b\<rparr>)))"
proof -
  have h: "False \<or> distinct (map id_p example_table)"
    by (simp add: example_table_def)
  from no_duplicate_placement [OF example_mode_b h] example_mode_b h
  show ?thesis by blast
qed

text \<open>
  C6: every station produced with dependencies respected has \<open>machines_required = 1\<close>,
  and every station produced without has \<open>machines_required\<close> equal to the ceiling of
  its total expected time, for every table and every target.
\<close>

theorem machines_required_policy:
  assumes "allocate_processes_to_stations df respect_dependencies throughput_target = Inr res"
    and "s \<in> set (stations res)"
  shows "machines_required s
     = (if respect_dependencies then 1 else \<lceil>total_expected_time s\<rceil>)"
proof (cases respect_dependencies)
  case True
  with assms mode_a_stations [of df throughput_target res s] show ?thesis
    by (auto simp: make_station_a_def)
next
  case False
  with assms mode_b_stations [of df throughput_target res s] show ?thesis
    by (auto simp: make_station_b_def)
qed

theorem machines_required_policy_witness:
  "allocate_processes_to_stations example_table True 1 = Inr \<lparr>stations = example_stations_a\<rparr>
   \<and> example_stations_a ! 0 \<in> set (stations \<lparr>stations = example_stations_a\<rparr>)
   \<and> machines_required (example_stations_a ! 0) = 1
   \<and> allocate_processes_to_stations example_table False 0.35
       = Inr \<lparr>stations = example_stations_b\<rparr>
   \<and> example_stations_b ! 1 \<in> set (stations \<lparr>stations = example_stations_b\<rparr>)
   \<and> machines_required (example_stations_b ! 1)
       = \<lceil>total_expected_time (example_stations_b ! 1)\<rceil>"
proof -
  have a: "example_stations_a ! 0 \<in> set (stations \<lparr>stations = example_stations_a\<rparr>)"
    by (simp add: example_stations_a_def)
  have b: "example_stations_b ! 1 \<in> set (stations \<lparr>stations = example_stations_b\<rparr>)"
    by (simp add: example_stations_b_def)
  from machines_required_policy [OF example_mode_a a]
    machines_required_policy [OF example_mode_b b] example_mode_a example_mode_b a b
  show ?thesis by simp
qed

section \<open>The summary\<close>

text \<open>
  C7: the summary's station count is the length of the station list, its total waste time
  is the sum of the \<open>waste_time\<close> fields, which for a result of the allocator is the sum
  of target minus total expected time over the stations, and its machine total is the sum
  of the \<open>machines_required\<close> fields; on an empty station list all three are zero.
\<close>

theorem summary_totals:
  "total_stations (generate_summary_report a) = length (stations a)
   \<and> total_waste_time (generate_summary_report a) = (\<Sum>s\<leftarrow>stations a. waste_time s)
   \<and> total_machines_required (generate_summary_report a)
        = (\<Sum>s\<leftarrow>stations a. machines_required s)
   \<and> (allocate_processes_to_stations df respect_dependencies throughput_target = Inr a \<longrightarrow>
        total_waste_time (generate_summary_report a)
          = (\<Sum>s\<leftarrow>stations a. throughput_target - total_expected_time s))
   \<and> (stations a = [] \<longrightarrow>
        total_stations (generate_summary_report a) = 0
        \<and> total_waste_time (generate_summary_report a) = 0
        \<and> total_machines_required (generate_summary_report a) = 0)"
proof (intro conjI impI)
  assume "allocate_processes_to_stations df respect_dependencies throughput_target = Inr a"
  then have "\<forall>s \<in> set (stations a). waste_time s = throughput_target - total_expected_time s"
    by (auto dest: allocate_waste_time)
  then have "map waste_time (stations a)
      = map (\<lambda>s. throughput_target - total_expected_time s) (stations a)"
    by simp
  then have "sum_list (map waste_time (stations a))
      = sum_list (map (\<lambda>s. throughput_target - total_expected_time s) (stations a))"
    by (rule arg_cong)
  then show "total_waste_time (generate_summary_report a)
      = (\<Sum>s\<leftarrow>stations a. throughput_target - total_expected_time s)"
    by (simp add: generate_summary_report_def)
qed (simp_all add: generate_summary_report_def)

theorem summary_totals_witness:
  "allocate_processes_to_stations example_table False 0.35 = Inr \<lparr>stations = example_stations_b\<rparr>
   \<and> total_waste_time (generate_summary_report \<lparr>stations = example_stations_b\<rparr>)
       = (\<Sum>s\<leftarrow>example_stations_b. 0.35 - total_expected_time s)
   \<and> total_stations (generate_summary_report \<lparr>stations = example_stations_b\<rparr>) = 5
   \<and> total_waste_time (generate_summary_report \<lparr>stations = example_stations_b\<rparr>) = 0.55
   \<and> total_machines_required (generate_summary_report \<lparr>stations = example_stations_b\<rparr>) = 3
   \<and> stations \<lparr>stations = []\<rparr> = []
   \<and> total_stations (generate_summary_report \<lparr>stations = []\<rparr>) = 0
   \<and> total_waste_time (generate_summary_report \<lparr>stations = []\<rparr>) = 0
   \<and> total_machines_required (generate_summary_report \<lparr>stations = []\<rparr>) = 0"
proof -
  have e: "stations \<lparr>stations = []\<rparr> = []" by simp
  from summary_totals [of "\<lparr>stations = example_stations_b\<rparr>" example_table False "0.35"]
    summary_totals [of "\<lparr>stations = []\<rparr>" "[]" False 0] example_mode_b e
  show ?thesis by (simp add: example_stations_b_def)
qed

section \<open>Properties of Mode B\<close>

text \<open>
  C8: without dependencies respected, the process lists of the stations are the summaries of
  lists of table rows such that all rows of one station have the same machine type, and
  such that the rows of each machine type, read through the stations in result order, are
  the rows of that type in their table order. When the ids of the table are unique, the
  rows that the table has for the ids of one station all have the same machine type.
\<close>

theorem mode_b_same_machine_in_order:
  assumes "allocate_processes_to_stations df False throughput_target = Inr res"
  shows "(\<exists>rowss. map processes (stations res) = map (map proc_summary) rowss
            \<and> (\<forall>rs \<in> set rowss. set rs \<subseteq> set df
                  \<and> (\<forall>p \<in> set rs. \<forall>q \<in> set rs. machineType p = machineType q))
            \<and> (\<forall>m. filter (\<lambda>p. machineType p = m) (concat rowss)
                    = filter (\<lambda>p. machineType p = m) df))
       \<and> (distinct (map id_p df) \<longrightarrow>
            (\<forall>s \<in> set (stations res). \<forall>e1 \<in> set (processes s). \<forall>e2 \<in> set (processes s).
               \<forall>p1 \<in> set df. \<forall>p2 \<in> set df. id_p p1 = ref_id e1 \<and> id_p p2 = ref_id e2 \<longrightarrow>
                 machineType p1 = machineType p2))"
proof -
  from mode_b_rows [OF assms] obtain rowss where
    h: "map processes (stations res) = map (map proc_summary) rowss"
       "concat rowss = concat (map snd (groupby_machineType df))"
       "\<forall>rs \<in> set rowss. \<exists>m. set rs \<subseteq> set (filter (\<lambda>p. machineType p = m) df)"
    by blast
  have same: "set rs \<subseteq> set df \<and> (\<forall>p \<in> set rs. \<forall>q \<in> set rs. machineType p = machineType q)"
    if "rs \<in> set rowss" for rs
  proof -
    from h(3) that obtain m where "set rs \<subseteq> set (filter (\<lambda>p. machineType p = m) df)"
      by blast
    then have "\<forall>p \<in> set rs. p \<in> set df \<and> machineType p = m" by auto
    then show ?thesis by auto
  qed
  from h(2) have order: "\<forall>m. filter (\<lambda>p. machineType p = m) (concat rowss)
      = filter (\<lambda>p. machineType p = m) df"
    by (simp add: filter_groupby_machineType)
  have lookup: "machineType p1 = machineType p2"
    if uniq: "distinct (map id_p df)" and s: "s \<in> set (stations res)"
      and e: "e1 \<in> set (processes s)" "e2 \<in> set (processes s)"
      and p: "p1 \<in> set df" "p2 \<in> set df" "id_p p1 = ref_id e1" "id_p p2 = ref_id e2"
    for s e1 e2 p1 p2
  proof -
    from s have "processes s \<in> set (map processes (stations res))" by simp
    with h(1) obtain rs where rs: "rs \<in> set rowss" "processes s = map proc_summary rs" by auto
    from e rs(2) have "e1 \<in> proc_summary ` set rs" "e2 \<in> proc_summary ` set rs"
      by simp_all
    then obtain q1 q2 where q: "q1 \<in> set rs" "e1 = proc_summary q1"
        "q2 \<in> set rs" "e2 = proc_summary q2" by blast
    from same [OF rs(1)] have sub: "set rs \<subseteq> set df"
      and eq: "\<forall>p \<in> set rs. \<forall>q \<in> set rs. machineType p = machineType q" by blast+
    from sub q(1,3) have in_df: "q1 \<in> set df" "q2 \<in> set df" by blast+
    from eq q(1,3) have mt: "machineType q1 = machineType q2" by blast
    from q p have "id_p q1 = id_p p1" "id_p q2 = id_p p2" by (simp_all add: proc_summary_def)
    from uniq have inj: "inj_on id_p (set df)" by (simp add: distinct_map)
    have "q1 = p1" by (rule inj_onD [OF inj]) fact+
    moreover have "q2 = p2" by (rule inj_onD [OF inj]) fact+
    ultimately show ?thesis using mt by simp
  qed
  have "\<exists>rowss. map processes (stations res) = map (map proc_summary) rowss
      \<and> (\<forall>rs \<in> set rowss. set rs \<subseteq> set df
            \<and> (\<forall>p \<in> set rs. \<forall>q \<in> set rs. machineType p = machineType q))
      \<and> (\<forall>m. filter (\<lambda>p. machineType p = m) (concat rowss)
              = filter (\<lambda>p. machineType p = m) df)"
  proof (intro exI [of _ rowss] conjI ballI)
    show "map processes (stations res) = map (map proc_summary) rowss" by (rule h(1))
  next
    fix rs assume "rs \<in> set rowss"
    from same [OF this] show "set rs \<subseteq> set df" by (rule conjunct1)
  next
    fix rs p q assume "rs \<in> set rowss" "p \<in> set rs" "q \<in> set rs"
    with same [of rs] show "machineType p = machineType q" by blast
  next
    show "\<forall>m. filter (\<lambda>p. machineType p = m) (concat rowss)
        = filter (\<lambda>p. machineType p = m) df" by (rule order)
  qed
  moreover have "distinct (map id_p df) \<longrightarrow>
      (\<forall>s \<in> set (stations res). \<forall>e1 \<in> set (processes s). \<forall>e2 \<in> set (processes s).
         \<forall>p1 \<in> set df. \<forall>p2 \<in> set df. id_p p1 = ref_id e1 \<and> id_p p2 = ref_id e2 \<longrightarrow>
           machineType p1 = machineType p2)"
  proof (intro impI ballI)
    fix s e1 e2 p1 p2
    assume "distinct (map id_p df)" "s \<in> set (stations res)" "e1 \<in> set (processes s)"
      "e2 \<in> set (processes s)" "p1 \<in> set df" "p2 \<in> set df"
      "id_p p1 = ref_id e1 \<and> id_p p2 = ref_id e2"
    then show "machineType p1 = machineType p2" by (blast intro: lookup)
  qed
  ultimately show ?thesis by (rule conjI)
qed

theorem mode_b_same_machine_in_order_witness:
  "allocate_processes_to_stations example_table False 0.35 = Inr \<lparr>stations = example_stations_b\<rparr>
   \<and> (\<exists>rowss. map processes (stations \<lparr>stations = example_stations_b\<rparr>)
         = map (map proc_summary) rowss
       \<and> (\<forall>rs \<in> set rowss. set rs \<subseteq> set example_table
             \<and> (\<forall>p \<in> set rs. \<forall>q \<in> set rs. machineType p = machineType q))
       \<and> (\<forall>m. filter (\<lambda>p. machineType p = m) (concat rowss)
               = filter (\<lambda>p. machineType p = m) example_table))
   \<and> distinct (map id_p example_table)"
proof -
  have h: "distinct (map id_p example_table)" by (simp add: example_table_def)
  from mode_b_same_machine_in_order [OF example_mode_b, THEN conjunct1] example_mode_b h
  show ?thesis by (intro conjI)
qed

text \<open>
  C9: without dependencies respected, whenever the first row of a machine-type group has a
  duration strictly greater than the target, the result holds a station with an empty
  process list, total expected time 0, waste time equal to the target and no machine
  required.
\<close>

theorem mode_b_empty_station:
  assumes "filter (\<lambda>q. machineType q = m) df = p # rest"
    and "throughput_target < expectedTimeInMin p"
    and "allocate_processes_to_stations df False throughput_target = Inr res"
  shows "\<exists>s \<in> set (stations res). processes s = [] \<and> total_expected_time s = 0
       \<and> waste_time s = throughput_target \<and> machines_required s = 0"
proof -
  from assms(1) have "p \<in> set (filter (\<lambda>q. machineType q = m) df)" by simp
  then have "m \<in> set (sort (remdups (map machineType df)))" by auto
  with assms(1) have "(m, p # rest) \<in> set (groupby_machineType df)"
    by (auto simp: groupby_machineType_def)
  from all_groups_first_overflow [OF assms(2) this, of "([], 1)"] allocate_mode_b [OF assms(3)]
  obtain n where "make_station_b n throughput_target [] 0 \<in> set (stations res)" by auto
  then show ?thesis by (intro bexI [of _ "make_station_b n throughput_target [] 0"])
      (simp_all add: make_station_b_def)
qed

theorem mode_b_empty_station_witness:
  "filter (\<lambda>q. machineType q = ''M1'') example_table = example_table ! 0 # [example_table ! 1]
   \<and> 0.35 < expectedTimeInMin (example_table ! 0)
   \<and> allocate_processes_to_stations example_table False 0.35
       = Inr \<lparr>stations = example_stations_b\<rparr>
   \<and> (\<exists>s \<in> set (stations \<lparr>stations = example_stations_b\<rparr>). processes s = []
         \<and> total_expected_time s = 0 \<and> waste_time s = 0.35 \<and> machines_required s = 0)"
proof -
  have h: "filter (\<lambda>q. machineType q = ''M1'') example_table
      = example_table ! 0 # [example_table ! 1]"
    "0.35 < expectedTimeInMin (example_table ! 0)"
    by (simp_all add: example_table_def)
  from mode_b_empty_station [OF h example_mode_b] h example_mode_b
  show ?thesis by blast
qed

section \<open>Termination\<close>

text \<open>
  C10: the allocator returns on every table in both modes. In Mode A the outer loop is
  defined by well-founded recursion on the number of ids of the table that are not yet
  allocated: a pass either finds no seed, and the loop returns the stations it has, or it
  allocates at least one new id, so that number strictly drops. Hence at most one station
  per row is produced. Mode B is structural recursion over the rows.
\<close>

theorem allocator_terminates:
  "(case scan_for_seed df df throughput_target allocated of
      None \<Rightarrow> while_unallocated df throughput_target sts sid allocated = sts
    | Some (current_station, allocated') \<Rightarrow>
        allocated \<subset> allocated'
        \<and> card (id_p ` set df - allocated') < card (id_p ` set df - allocated))
   \<and> length (while_unallocated df throughput_target sts sid allocated)
        \<le> length sts + card (id_p ` set df - allocated)
   \<and> ((\<exists>e. allocate_processes_to_stations df True throughput_target = Inl e)
        \<or> (\<exists>res. allocate_processes_to_stations df True throughput_target = Inr res
              \<and> length (stations res) \<le> length df))
   \<and> (\<exists>res. allocate_processes_to_stations df False throughput_target = Inr res)"
proof (intro conjI)
  show "case scan_for_seed df df throughput_target allocated of
      None \<Rightarrow> while_unallocated df throughput_target sts sid allocated = sts
    | Some (current_station, allocated') \<Rightarrow>
        allocated \<subset> allocated'
        \<and> card (id_p ` set df - allocated') < card (id_p ` set df - allocated)"
  proof (cases "scan_for_seed df df throughput_target allocated")
    case None
    then show ?thesis by (simp add: while_unallocated.simps)
  next
    case (Some r)
    obtain cur allocated' where r: "r = (cur, allocated')" by (cases r)
    with Some have s: "scan_for_seed df df throughput_target allocated = Some (cur, allocated')"
      by simp
    from scan_for_seed_progress [OF s] have "allocated \<subset> allocated'" by blast
    with scan_for_seed_measure [OF s] s show ?thesis by simp
  qed
next
  show "length (while_unallocated df throughput_target sts sid allocated)
        \<le> length sts + card (id_p ` set df - allocated)"
    by (rule while_unallocated_length)
next
  have "card (id_p ` set df) \<le> length df"
    by (metis card_image_le card_length le_trans List.finite_set)
  with while_unallocated_length [of df throughput_target "[]" 1 "{}"]
  have "length (while_unallocated df throughput_target [] 1 {}) \<le> length df" by simp
  then show "(\<exists>e. allocate_processes_to_stations df True throughput_target = Inl e)
        \<or> (\<exists>res. allocate_processes_to_stations df True throughput_target = Inr res
              \<and> length (stations res) \<le> length df)"
    by (cases "validate_dependencies df") (simp_all add: allocate_processes_to_stations_def)
next
  show "\<exists>res. allocate_processes_to_stations df False throughput_target = Inr res"
    by (simp add: allocate_processes_to_stations_def)
qed

theorem allocator_terminates_witness:
  "scan_for_seed example_table example_table 1 {}
     = Some ([example_table ! 0, example_table ! 1], {''A'', ''B''})
   \<and> {} \<subset> {''A'', ''B''}
   \<and> card (id_p ` set example_table - {''A'', ''B''}) < card (id_p ` set example_table - {})
   \<and> length (while_unallocated example_table 1 [] 1 {}) \<le> 3"
proof -
  have s: "scan_for_seed example_table example_table 1 {}
     = Some ([example_table ! 0, example_table ! 1], {''A'', ''B''})"
    by (simp add: example_table_def deps_met_def calculate_station_time_def insert_commute)
  have c: "card (id_p ` set example_table - {}) = 3"
    by (simp add: example_table_def)
  from allocator_terminates [where df = example_table and throughput_target = 1
      and allocated = "{}" and sts = "[]" and sid = 1] s c
  show ?thesis by simp
qed

end
